theory Spec2Isabelle
  imports Main "HOL-Library.Word" "HOL-Library.Finite_Map"
begin

section \<open>The sharded label lookup of hnswlib (shard_label.h)\<close>

text \<open>
  The class \<^verbatim>\<open>ShardedLabelLookup\<close> keeps a vector of \<^verbatim>\<open>NUM_SHARDS\<close> shards; a shard
  is an \<^verbatim>\<open>std::unordered_map<labeltype, tableint>\<close> and an \<^verbatim>\<open>std::shared_mutex\<close>.
  The model below is sequential: one thread calls the methods one after the other.
  A method is a function from the object before the call to the object after it and
  the value returned.

  \<^item> \<^verbatim>\<open>tableint\<close> is \<^verbatim>\<open>unsigned int\<close>: a 32-bit word.
  \<^item> \<^verbatim>\<open>size_t\<close> is a 64-bit word.
  \<^item> \<^verbatim>\<open>labeltype\<close> is declared in hnswlib.h, which is not part of the sources at hand:
    it is the type variable \<open>'l\<close>, and \<^verbatim>\<open>std::hash<labeltype>{}\<close> is the parameter
    \<open>std_hash\<close> of every method that routes a label.
  \<^item> An \<^verbatim>\<open>unordered_map\<close> is a finite map: its keys are unique and it has no order.
  \<^item> The member \<^verbatim>\<open>shards_\<close> is the field \<open>shards\<close> and the member \<^verbatim>\<open>map\<close> of a
    shard is the field \<open>map_tab\<close>; the methods \<^verbatim>\<open>insert\<close>, \<^verbatim>\<open>find\<close> and \<^verbatim>\<open>erase\<close>
    are \<open>insert_label\<close>, \<open>find_label\<close> and \<open>erase_label\<close>.
\<close>

type_synonym tableint = "32 word"
type_synonym size_t = "64 word"

subsection \<open>std::shared_mutex, as one thread sees it\<close>

text \<open>
  A shared mutex is held by one writer, or by some number of readers, or by nobody.
  \<^verbatim>\<open>lock()\<close> waits until nobody holds it, \<^verbatim>\<open>lock_shared()\<close> waits until no writer
  holds it. With a single thread nobody else will ever release the mutex, so a call
  that has to wait never returns: that is the fault \<open>Blocked\<close>.
\<close>

record shared_mutex =
  writer :: bool
  readers :: nat

datatype fault = Out_of_range | Blocked

definition lock :: "shared_mutex \<Rightarrow> fault + shared_mutex" where
  "lock m = (if writer m \<or> readers m \<noteq> 0 then Inl Blocked else Inr (m\<lparr>writer := True\<rparr>))"

definition unlock :: "shared_mutex \<Rightarrow> shared_mutex" where
  "unlock m = m\<lparr>writer := False\<rparr>"

definition lock_shared :: "shared_mutex \<Rightarrow> fault + shared_mutex" where
  "lock_shared m = (if writer m then Inl Blocked else Inr (m\<lparr>readers := Suc (readers m)\<rparr>))"

definition unlock_shared :: "shared_mutex \<Rightarrow> shared_mutex" where
  "unlock_shared m = m\<lparr>readers := readers m - 1\<rparr>"

subsection \<open>The data: Shard and ShardedLabelLookup\<close>

record 'l Shard =
  map_tab :: "('l, tableint) fmap"
  mutex :: shared_mutex

record 'l ShardedLabelLookup =
  shards :: "'l Shard list"

definition NUM_SHARDS :: size_t where
  "NUM_SHARDS = 128"

text \<open>The constructor \<^verbatim>\<open>ShardedLabelLookup() : shards_(NUM_SHARDS) {}\<close>: it has no
  argument, and value-initialises \<^verbatim>\<open>NUM_SHARDS\<close> shards (empty map, free mutex).\<close>

definition ShardedLabelLookup_ctor :: "unit \<Rightarrow> 'l ShardedLabelLookup" where
  "ShardedLabelLookup_ctor _ =
     \<lparr>shards = replicate (unat NUM_SHARDS)
        \<lparr>map_tab = fmempty, mutex = \<lparr>writer = False, readers = 0\<rparr>\<rparr>\<rparr>"

text \<open>\<^verbatim>\<open>get_shard_index\<close> is a const member function: it receives the object (\<open>this\<close>)
  and the label, and reads only the label and the static constant.\<close>

definition get_shard_index ::
  "('l \<Rightarrow> size_t) \<Rightarrow> 'l ShardedLabelLookup \<Rightarrow> 'l \<Rightarrow> size_t" where
  "get_shard_index std_hash this label = std_hash label mod NUM_SHARDS"

subsection \<open>Statements of the method bodies\<close>

text \<open>\<open>update_shard idx f\<close> writes \<open>f\<close> of the shard at \<open>idx\<close> back to \<^verbatim>\<open>shards_[idx]\<close>.\<close>

definition update_shard ::
  "nat \<Rightarrow> ('l Shard \<Rightarrow> 'l Shard) \<Rightarrow> 'l ShardedLabelLookup \<Rightarrow> 'l ShardedLabelLookup" where
  "update_shard idx f this = this\<lparr>shards := (shards this)[idx := f (shards this ! idx)]\<rparr>"

text \<open>
  \<^verbatim>\<open>std::unique_lock<std::shared_mutex> lock(shards_[idx].mutex)\<close> takes the mutex of
  shard \<open>idx\<close> in exclusive mode; the lock's destructor releases it when the method's
  scope ends. \<^verbatim>\<open>std::shared_lock\<close> does the same in shared mode. Indexing the vector
  past its end is undefined in C++; the model reports it as \<open>Out_of_range\<close>.
\<close>

definition unique_lock :: "nat \<Rightarrow> 'l ShardedLabelLookup \<Rightarrow> fault + 'l ShardedLabelLookup" where
  "unique_lock idx this =
     (if length (shards this) \<le> idx then Inl Out_of_range
      else case lock (mutex (shards this ! idx)) of
             Inl e \<Rightarrow> Inl e
           | Inr m \<Rightarrow> Inr (update_shard idx (\<lambda>sh. sh\<lparr>mutex := m\<rparr>) this))"

definition unique_lock_dtor :: "nat \<Rightarrow> 'l ShardedLabelLookup \<Rightarrow> 'l ShardedLabelLookup" where
  "unique_lock_dtor idx this = update_shard idx (\<lambda>sh. sh\<lparr>mutex := unlock (mutex sh)\<rparr>) this"

definition shared_lock :: "nat \<Rightarrow> 'l ShardedLabelLookup \<Rightarrow> fault + 'l ShardedLabelLookup" where
  "shared_lock idx this =
     (if length (shards this) \<le> idx then Inl Out_of_range
      else case lock_shared (mutex (shards this ! idx)) of
             Inl e \<Rightarrow> Inl e
           | Inr m \<Rightarrow> Inr (update_shard idx (\<lambda>sh. sh\<lparr>mutex := m\<rparr>) this))"

definition shared_lock_dtor :: "nat \<Rightarrow> 'l ShardedLabelLookup \<Rightarrow> 'l ShardedLabelLookup" where
  "shared_lock_dtor idx this =
     update_shard idx (\<lambda>sh. sh\<lparr>mutex := unlock_shared (mutex sh)\<rparr>) this"

text \<open>\<^verbatim>\<open>unordered_map::erase(key)\<close> removes the entry of the key, if there is one, and
  returns the number of entries removed.\<close>

definition unordered_map_erase ::
  "'l \<Rightarrow> ('l, tableint) fmap \<Rightarrow> size_t \<times> ('l, tableint) fmap" where
  "unordered_map_erase label m = ((if label |\<in>| fmdom m then 1 else 0), fmdrop label m)"

subsection \<open>The methods insert, find and erase\<close>

text \<open>\<^verbatim>\<open>insert\<close>: \<^verbatim>\<open>shards_[idx].map[label] = id\<close> under the exclusive lock of shard
  \<open>idx\<close>. The argument \<^verbatim>\<open>id\<close> is \<open>ident\<close> here.\<close>

definition insert_label ::
  "('l \<Rightarrow> size_t) \<Rightarrow> 'l \<Rightarrow> tableint \<Rightarrow> 'l ShardedLabelLookup \<Rightarrow> fault + 'l ShardedLabelLookup"
  where
  "insert_label std_hash label ident this =
     (let idx = unat (get_shard_index std_hash this label) in
      case unique_lock idx this of
        Inl e \<Rightarrow> Inl e
      | Inr locked \<Rightarrow>
          Inr (unique_lock_dtor idx
                 (update_shard idx (\<lambda>sh. sh\<lparr>map_tab := fmupd label ident (map_tab sh)\<rparr>) locked)))"

text \<open>\<^verbatim>\<open>find\<close>: looks the label up under the shared lock of shard \<open>idx\<close> and returns
  the stored id, or \<^verbatim>\<open>-1\<close> converted to \<^verbatim>\<open>tableint\<close> when there is no entry.\<close>

definition find_label ::
  "('l \<Rightarrow> size_t) \<Rightarrow> 'l \<Rightarrow> 'l ShardedLabelLookup \<Rightarrow> fault + tableint \<times> 'l ShardedLabelLookup"
  where
  "find_label std_hash label this =
     (let idx = unat (get_shard_index std_hash this label) in
      case shared_lock idx this of
        Inl e \<Rightarrow> Inl e
      | Inr locked \<Rightarrow>
          (let it = fmlookup (map_tab (shards locked ! idx)) label;
               r = (case it of Some second \<Rightarrow> second | None \<Rightarrow> - 1)
           in Inr (r, shared_lock_dtor idx locked)))"

text \<open>\<^verbatim>\<open>erase\<close>: \<^verbatim>\<open>shards_[idx].map.erase(label) > 0\<close> under the exclusive lock of
  shard \<open>idx\<close>.\<close>

definition erase_label ::
  "('l \<Rightarrow> size_t) \<Rightarrow> 'l \<Rightarrow> 'l ShardedLabelLookup \<Rightarrow> fault + bool \<times> 'l ShardedLabelLookup"
  where
  "erase_label std_hash label this =
     (let idx = unat (get_shard_index std_hash this label) in
      case unique_lock idx this of
        Inl e \<Rightarrow> Inl e
      | Inr locked \<Rightarrow>
          (let (n, m) = unordered_map_erase label (map_tab (shards locked ! idx));
               erased = update_shard idx (\<lambda>sh. sh\<lparr>map_tab := m\<rparr>) locked
           in Inr (0 < n, unique_lock_dtor idx erased)))"

subsection \<open>Sequences of calls\<close>

text \<open>A call of the public interface, the value it returns, and a sequence of calls
  run one after the other on the same object. A call that does not return ends the
  sequence.\<close>

datatype 'l call = Insert 'l tableint | Find 'l | Erase 'l

datatype ret = Returned | Found tableint | Erased bool

fun perform ::
  "('l \<Rightarrow> size_t) \<Rightarrow> 'l call \<Rightarrow> 'l ShardedLabelLookup \<Rightarrow> fault + ret \<times> 'l ShardedLabelLookup"
  where
  "perform h (Insert label ident) s =
     (case insert_label h label ident s of Inl e \<Rightarrow> Inl e | Inr s' \<Rightarrow> Inr (Returned, s'))"
| "perform h (Find label) s =
     (case find_label h label s of Inl e \<Rightarrow> Inl e | Inr (r, s') \<Rightarrow> Inr (Found r, s'))"
| "perform h (Erase label) s =
     (case erase_label h label s of Inl e \<Rightarrow> Inl e | Inr (b, s') \<Rightarrow> Inr (Erased b, s'))"

fun run ::
  "('l \<Rightarrow> size_t) \<Rightarrow> 'l call list \<Rightarrow> 'l ShardedLabelLookup
     \<Rightarrow> fault + ret list \<times> 'l ShardedLabelLookup"
  where
  "run h [] s = Inr ([], s)"
| "run h (c # cs) s =
     (case perform h c s of
        Inl e \<Rightarrow> Inl e
      | Inr (r, s1) \<Rightarrow>
          (case run h cs s1 of Inl e \<Rightarrow> Inl e | Inr (rs, s2) \<Rightarrow> Inr (r # rs, s2)))"

text \<open>The label a call writes: \<^verbatim>\<open>insert\<close> and \<^verbatim>\<open>erase\<close> write, \<^verbatim>\<open>find\<close> does not.\<close>

fun written :: "'l call \<Rightarrow> 'l option" where
  "written (Insert label ident) = Some label"
| "written (Erase label) = Some label"
| "written (Find label) = None"

subsection \<open>States between calls\<close>

text \<open>
  Between two calls of a single thread no mutex is held (\<open>quiescent\<close>). The labels of
  the structure are the keys of all shard maps (\<open>labels\<close>); \<open>routed\<close> says that every
  key sits in the shard its hash selects. \<open>invariant\<close> is what the constructor
  establishes and every method keeps. \<open>held_locks\<close> is the set of shards whose mutex is
  held, and \<open>entries\<close> the number of entries in all maps together.
\<close>

definition free :: "shared_mutex \<Rightarrow> bool" where
  "free m = (\<not> writer m \<and> readers m = 0)"

definition quiescent :: "'l ShardedLabelLookup \<Rightarrow> bool" where
  "quiescent s = list_all (\<lambda>sh. free (mutex sh)) (shards s)"


definition labels :: "'l ShardedLabelLookup \<Rightarrow> 'l set" where
  "labels s = (\<Union>sh \<in> set (shards s). fset (fmdom (map_tab sh)))"

definition routed :: "('l \<Rightarrow> size_t) \<Rightarrow> 'l ShardedLabelLookup \<Rightarrow> bool" where
  "routed h s =
     (\<forall>i \<in> {..<length (shards s)}. \<forall>l \<in> fset (fmdom (map_tab (shards s ! i))).
        unat (get_shard_index h s l) = i)"

definition invariant :: "('l \<Rightarrow> size_t) \<Rightarrow> 'l ShardedLabelLookup \<Rightarrow> bool" where
  "invariant h s = (length (shards s) = unat NUM_SHARDS \<and> quiescent s \<and> routed h s)"

definition entries :: "'l ShardedLabelLookup \<Rightarrow> nat" where
  "entries s = sum_list (map (\<lambda>sh. fcard (fmdom (map_tab sh))) (shards s))"

text \<open>The index of the shard of a label as a natural number (\<open>home\<close>), the shard of a
  label, and the entry the structure holds for it.\<close>

definition home :: "('l \<Rightarrow> size_t) \<Rightarrow> 'l \<Rightarrow> nat" where
  "home h l = unat (get_shard_index h (ShardedLabelLookup_ctor ()) l)"

definition shard_of :: "('l \<Rightarrow> size_t) \<Rightarrow> 'l ShardedLabelLookup \<Rightarrow> 'l \<Rightarrow> 'l Shard" where
  "shard_of h s l = shards s ! unat (get_shard_index h s l)"

definition entry :: "('l \<Rightarrow> size_t) \<Rightarrow> 'l ShardedLabelLookup \<Rightarrow> 'l \<Rightarrow> tableint option" where
  "entry h s l = fmlookup (map_tab (shard_of h s l)) l"


subsection \<open>The labels a sequence of calls leaves\<close>

text \<open>The labels inserted and not erased afterwards, call by call: \<^verbatim>\<open>insert\<close> adds its
  label, \<^verbatim>\<open>erase\<close> removes it, \<^verbatim>\<open>find\<close> changes nothing.\<close>

fun live_step :: "'l set \<Rightarrow> 'l call \<Rightarrow> 'l set" where
  "live_step S (Insert label ident) = insert label S"
| "live_step S (Erase label) = S - {label}"
| "live_step S (Find label) = S"

definition live :: "'l call list \<Rightarrow> 'l set" where
  "live cs = foldl live_step {} cs"

subsection \<open>The constructor as the specification words it\<close>

text \<open>The specification speaks of a construction that takes the shard count. This is
  that construction, to compare the constructor of the code with: \<open>shard_count\<close>
  shards, each with an empty map and a free mutex.\<close>

definition spec_ShardedLabelLookup_ctor :: "nat \<Rightarrow> 'l ShardedLabelLookup" where
  "spec_ShardedLabelLookup_ctor shard_count =
     \<lparr>shards = replicate shard_count
        \<lparr>map_tab = fmempty, mutex = \<lparr>writer = False, readers = 0\<rparr>\<rparr>\<rparr>"

section \<open>The scoped timer of the profiler (hnsw_profiler.h)\<close>

text \<open>
  \<^verbatim>\<open>HNSWLightProfiler\<close> has static members only: a \<^verbatim>\<open>std::mutex\<close>, the flushed events,
  the first start time and the last end time of each thread, and the thread-local
  event buffer, of which every thread has its own (a function of the thread id). The
  trailing underscore of the member names is dropped. \<^verbatim>\<open>Timer\<close> has the members
  \<^verbatim>\<open>tag_\<close> and \<^verbatim>\<open>start_\<close>, here \<open>timer_tag\<close> and \<open>timer_start\<close>.

  The buffer of a thread is modelled for as long as the thread lives; the end of a
  thread, which destroys its buffer, and the reuse of its id are not part of the model.

  The clock and the identity of the running thread are inputs: the value that
  \<^verbatim>\<open>now()\<close> returns and the value of \<^verbatim>\<open>std::this_thread::get_id()\<close> are arguments of the
  constructor and the destructor.
\<close>

type_synonym thread_id = nat

record Event =
  tag :: string
  tid :: thread_id
  duration_us :: "64 word"

record HNSWLightProfiler =
  events_mutex :: bool
  events :: "Event list"
  thread_start_times :: "(thread_id, 64 word) fmap"
  thread_end_times :: "(thread_id, 64 word) fmap"
  thread_local_events :: "thread_id \<Rightarrow> Event list"

record Timer =
  timer_tag :: string
  timer_start :: "64 word"

text \<open>The static member definitions: a free mutex and empty containers.\<close>

definition HNSWLightProfiler_static :: "unit \<Rightarrow> HNSWLightProfiler" where
  "HNSWLightProfiler_static _ =
     \<lparr>events_mutex = False, events = [], thread_start_times = fmempty,
      thread_end_times = fmempty, thread_local_events = (\<lambda>_. [])\<rparr>"

text \<open>\<^verbatim>\<open>Timer(const std::string& tag) : tag_(tag) { start_ = now(); }\<close>\<close>

definition Timer_ctor :: "string \<Rightarrow> 64 word \<Rightarrow> Timer" where
  "Timer_ctor the_tag now = \<lparr>timer_tag = the_tag, timer_start = now\<rparr>"

text \<open>\<^verbatim>\<open>~Timer()\<close>: the duration is an unsigned 64-bit difference; the event goes to
  the buffer of the running thread; the start time of a thread is written once, its
  end time every time, both under \<^verbatim>\<open>events_mutex_\<close>, which a \<^verbatim>\<open>std::lock_guard\<close> takes
  and releases. A mutex that is held makes the single thread wait for ever.\<close>

definition Timer_dtor ::
  "Timer \<Rightarrow> 64 word \<Rightarrow> thread_id \<Rightarrow> HNSWLightProfiler \<Rightarrow> fault + HNSWLightProfiler" where
  "Timer_dtor this now thread p =
     (let end_us = now;
          duration = end_us - timer_start this;
          p1 = p\<lparr>thread_local_events := (thread_local_events p)
                  (thread := thread_local_events p thread
                     @ [\<lparr>tag = timer_tag this, tid = thread, duration_us = duration\<rparr>])\<rparr>
      in if events_mutex p1 then Inl Blocked
         else
           (let p2 = p1\<lparr>events_mutex := True\<rparr>;
                p3 = (if fmlookup (thread_start_times p2) thread = None
                      then p2\<lparr>thread_start_times :=
                                fmupd thread (timer_start this) (thread_start_times p2)\<rparr>
                      else p2);
                p4 = p3\<lparr>thread_end_times := fmupd thread end_us (thread_end_times p3)\<rparr>
            in Inr (p4\<lparr>events_mutex := False\<rparr>)))"

subsection \<open>A call inside the scope of a timer\<close>

text \<open>
  \<^verbatim>\<open>{ HNSWLightProfiler::Timer t(tag); r = lookup.method(...); }\<close>: the timer is
  constructed, the method runs, and the timer is destroyed at the end of the scope.
  The lookup and the profiler are two objects; a timed call takes and returns both.
  A timed call is a tag, the two clock readings and the call.
\<close>

type_synonym 'l timed_call = "string \<times> 64 word \<times> 64 word \<times> 'l call"

fun untimed :: "'l timed_call \<Rightarrow> 'l call" where
  "untimed (the_tag, t_start, t_end, c) = c"

fun perform_timed ::
  "('l \<Rightarrow> size_t) \<Rightarrow> thread_id \<Rightarrow> 'l timed_call
     \<Rightarrow> 'l ShardedLabelLookup \<times> HNSWLightProfiler
     \<Rightarrow> fault + ret \<times> 'l ShardedLabelLookup \<times> HNSWLightProfiler"
  where
  "perform_timed h thread (the_tag, t_start, t_end, c) (s, p) =
     (let t = Timer_ctor the_tag t_start in
      case perform h c s of
        Inl e \<Rightarrow> Inl e
      | Inr (r, s1) \<Rightarrow>
          (case Timer_dtor t t_end thread p of
             Inl e \<Rightarrow> Inl e
           | Inr p1 \<Rightarrow> Inr (r, s1, p1)))"

fun run_timed ::
  "('l \<Rightarrow> size_t) \<Rightarrow> thread_id \<Rightarrow> 'l timed_call list
     \<Rightarrow> 'l ShardedLabelLookup \<times> HNSWLightProfiler
     \<Rightarrow> fault + ret list \<times> 'l ShardedLabelLookup \<times> HNSWLightProfiler"
  where
  "run_timed h thread [] sp = Inr ([], sp)"
| "run_timed h thread (tc # tcs) sp =
     (case perform_timed h thread tc sp of
        Inl e \<Rightarrow> Inl e
      | Inr (r, sp1) \<Rightarrow>
          (case run_timed h thread tcs sp1 of
             Inl e \<Rightarrow> Inl e
           | Inr (rs, sp2) \<Rightarrow> Inr (r # rs, sp2)))"

text \<open>What a caller of the lookup observes of a timed run: the values returned and the
  lookup.\<close>

fun observed ::
  "fault + ret list \<times> 'l ShardedLabelLookup \<times> HNSWLightProfiler
     \<Rightarrow> fault + ret list \<times> 'l ShardedLabelLookup" where
  "observed (Inl e) = Inl e"
| "observed (Inr (rs, s, p)) = Inr (rs, s)"

section \<open>Routing\<close>

text \<open>
  Claim C3. \<^verbatim>\<open>get_shard_index(label)\<close> returns an index in \<open>[0, shard_count)\<close>, and the
  index depends on the label alone: the same label gives the same index on the same
  instance and on any two instances (all instances have \<^verbatim>\<open>NUM_SHARDS\<close> shards). The
  method returns a value only, so it changes nothing.
\<close>

theorem get_shard_index_deterministic_in_range:
  "get_shard_index h s l < NUM_SHARDS
   \<and> unat (get_shard_index h s l) < length (shards (ShardedLabelLookup_ctor () :: 'l ShardedLabelLookup))
   \<and> get_shard_index h s l = get_shard_index h s' l"
  by (simp add: get_shard_index_def NUM_SHARDS_def ShardedLabelLookup_ctor_def
      unat_mod word_mod_less_divisor)

section \<open>What a call does to a state between calls\<close>

text \<open>In a state that satisfies the invariant the lock of the label's shard is free, so
  each method returns; the lock is released at the end, so the state after the call
  differs from the state before only in the map of that shard.\<close>

lemma unat_get_shard_index [simp]: "unat (get_shard_index h s l) = home h l"
  by (simp add: home_def get_shard_index_def)

lemma home_less [simp]: "home h l < 128"
  by (simp add: home_def get_shard_index_def NUM_SHARDS_def unat_mod)

lemma shards_update_shard [simp]:
  "shards (update_shard idx f s) = (shards s)[idx := f (shards s ! idx)]"
  by (simp add: update_shard_def)

lemma update_shard_compose:
  "idx < length (shards s) \<Longrightarrow>
   update_shard idx g (update_shard idx f s) = update_shard idx (\<lambda>sh. g (f sh)) s"
  by (simp add: update_shard_def)

lemma update_shard_same:
  "f (shards s ! idx) = shards s ! idx \<Longrightarrow> update_shard idx f s = s"
  by (simp add: update_shard_def)

lemma update_shard_cong:
  "f (shards s ! idx) = g (shards s ! idx) \<Longrightarrow> update_shard idx f s = update_shard idx g s"
  by (simp add: update_shard_def)

lemma invariant_length: "invariant h s \<Longrightarrow> length (shards s) = 128"
  by (simp add: invariant_def NUM_SHARDS_def)

lemma invariant_home: "invariant h s \<Longrightarrow> home h l < length (shards s)"
  by (simp add: invariant_length)

lemma quiescent_free:
  "quiescent s \<Longrightarrow> i < length (shards s) \<Longrightarrow> free (mutex (shards s ! i))"
  by (simp add: quiescent_def list_all_length)

lemma invariant_free: "invariant h s \<Longrightarrow> free (mutex (shards s ! home h l))"
  by (simp add: invariant_def quiescent_free NUM_SHARDS_def)

lemma lock_free: "free m \<Longrightarrow> lock m = Inr (m\<lparr>writer := True\<rparr>)"
  by (simp add: lock_def free_def)

lemma lock_shared_free: "free m \<Longrightarrow> lock_shared m = Inr (m\<lparr>readers := Suc (readers m)\<rparr>)"
  by (simp add: lock_shared_def free_def)

lemma unlock_lock: "free m \<Longrightarrow> unlock (m\<lparr>writer := True\<rparr>) = m"
  by (cases m) (simp add: unlock_def free_def)

lemma unlock_lock_shared: "unlock_shared (m\<lparr>readers := Suc (readers m)\<rparr>) = m"
  by (cases m) (simp add: unlock_shared_def)

lemma unique_lock_free:
  assumes "idx < length (shards s)" and "free (mutex (shards s ! idx))"
  shows "unique_lock idx s = Inr (update_shard idx (\<lambda>sh. sh\<lparr>mutex := (mutex sh)\<lparr>writer := True\<rparr>\<rparr>) s)"
  using assms by (simp add: unique_lock_def lock_free cong: update_shard_cong)

lemma shared_lock_free:
  assumes "idx < length (shards s)" and "free (mutex (shards s ! idx))"
  shows "shared_lock idx s =
    Inr (update_shard idx (\<lambda>sh. sh\<lparr>mutex := (mutex sh)\<lparr>readers := Suc (readers (mutex sh))\<rparr>\<rparr>) s)"
  using assms by (simp add: shared_lock_def lock_shared_free cong: update_shard_cong)

lemma insert_label_eq:
  assumes "invariant h s"
  shows "insert_label h l v s =
     Inr (update_shard (home h l) (\<lambda>sh. sh\<lparr>map_tab := fmupd l v (map_tab sh)\<rparr>) s)"
proof -
  have i: "home h l < length (shards s)" using assms by (rule invariant_home)
  have f: "free (mutex (shards s ! home h l))" using assms by (rule invariant_free)
  have "update_shard (home h l)
          (\<lambda>sh. sh\<lparr>map_tab := fmupd l v (map_tab sh), mutex := unlock ((mutex sh)\<lparr>writer := True\<rparr>)\<rparr>) s
        = update_shard (home h l) (\<lambda>sh. sh\<lparr>map_tab := fmupd l v (map_tab sh)\<rparr>) s"
    by (rule update_shard_cong) (simp add: unlock_lock [OF f])
  then show ?thesis
    using i f
    by (simp add: insert_label_def unique_lock_free unique_lock_dtor_def update_shard_compose)
qed

lemma find_label_eq:
  assumes "invariant h s"
  shows "find_label h l s = Inr ((case entry h s l of Some v \<Rightarrow> v | None \<Rightarrow> - 1), s)"
proof -
  have i: "home h l < length (shards s)" using assms by (rule invariant_home)
  have f: "free (mutex (shards s ! home h l))" using assms by (rule invariant_free)
  show ?thesis
    using i f
    by (simp add: find_label_def shared_lock_free shared_lock_dtor_def update_shard_compose
        unlock_lock_shared entry_def shard_of_def update_shard_same)
qed

lemma fmdom_iff_lookup: "l |\<in>| fmdom m \<longleftrightarrow> fmlookup m l \<noteq> None"
  by (simp add: fmlookup_dom_iff)

lemma erase_label_eq:
  assumes "invariant h s"
  shows "erase_label h l s =
     Inr (entry h s l \<noteq> None,
          update_shard (home h l) (\<lambda>sh. sh\<lparr>map_tab := fmdrop l (map_tab sh)\<rparr>) s)"
proof -
  have i: "home h l < length (shards s)" using assms by (rule invariant_home)
  have f: "free (mutex (shards s ! home h l))" using assms by (rule invariant_free)
  have "update_shard (home h l)
          (\<lambda>sh. sh\<lparr>map_tab := fmdrop l (map_tab (shards s ! home h l)),
                  mutex := unlock ((mutex sh)\<lparr>writer := True\<rparr>)\<rparr>) s
        = update_shard (home h l) (\<lambda>sh. sh\<lparr>map_tab := fmdrop l (map_tab sh)\<rparr>) s"
    by (rule update_shard_cong) (simp add: unlock_lock [OF f])
  then show ?thesis
    using i f
    by (simp add: erase_label_def unique_lock_free unique_lock_dtor_def update_shard_compose
        unordered_map_erase_def entry_def shard_of_def fmdom_iff_lookup Let_def)
qed

section \<open>The invariant\<close>

text \<open>The constructor establishes the invariant and every call keeps it, so every call
  of a sequence returns. A call that does not write a label leaves its entry alone.\<close>

lemma invariant_ctor: "invariant h (ShardedLabelLookup_ctor ())"
  by (simp add: invariant_def ShardedLabelLookup_ctor_def quiescent_def routed_def free_def
      list_all_length)

lemma quiescent_update_map:
  assumes "quiescent s" and "\<And>sh. mutex (f sh) = mutex sh"
  shows "quiescent (update_shard i f s)"
  using assms
  by (cases "i < length (shards s)") (auto simp: quiescent_def list_all_length nth_list_update)

lemma routed_update_map:
  assumes "routed h s" and "i < length (shards s)"
    and "\<And>l. l |\<in>| fmdom (map_tab (f (shards s ! i))) \<Longrightarrow> l |\<in>| fmdom (map_tab (shards s ! i)) \<or> home h l = i"
  shows "routed h (update_shard i f s)"
  using assms
  by (auto simp: routed_def nth_list_update)

lemma invariant_update_map:
  assumes "invariant h s"
    and "\<And>sh. mutex (f sh) = mutex sh"
    and "\<And>l'. l' |\<in>| fmdom (map_tab (f (shards s ! home h l))) \<Longrightarrow>
           l' |\<in>| fmdom (map_tab (shards s ! home h l)) \<or> l' = l"
  shows "invariant h (update_shard (home h l) f s)"
proof -
  have "routed h (update_shard (home h l) f s)"
  proof (rule routed_update_map)
    show "routed h s" using assms(1) by (simp add: invariant_def)
    show "home h l < length (shards s)" using assms(1) by (rule invariant_home)
    show "l' |\<in>| fmdom (map_tab (shards s ! home h l)) \<or> home h l' = home h l"
      if "l' |\<in>| fmdom (map_tab (f (shards s ! home h l)))" for l'
      using assms(3) [OF that] by auto
  qed
  moreover have "quiescent (update_shard (home h l) f s)"
    using assms(1,2) by (simp add: invariant_def quiescent_update_map)
  ultimately show ?thesis
    using assms(1) by (simp add: invariant_def)
qed

lemma invariant_insert:
  "invariant h s \<Longrightarrow>
   invariant h (update_shard (home h l) (\<lambda>sh. sh\<lparr>map_tab := fmupd l v (map_tab sh)\<rparr>) s)"
  by (rule invariant_update_map) auto

lemma invariant_erase:
  "invariant h s \<Longrightarrow>
   invariant h (update_shard (home h l) (\<lambda>sh. sh\<lparr>map_tab := fmdrop l (map_tab sh)\<rparr>) s)"
  by (rule invariant_update_map) auto

lemma entry_update_shard:
  assumes "home h l < length (shards s)"
  shows "entry h (update_shard (home h l) f s) l' =
     (if home h l' = home h l then fmlookup (map_tab (f (shards s ! home h l))) l'
      else entry h s l')"
  using assms by (simp add: entry_def shard_of_def)

lemma entry_insert:
  assumes "invariant h s"
  shows "entry h (update_shard (home h l) (\<lambda>sh. sh\<lparr>map_tab := fmupd l v (map_tab sh)\<rparr>) s) l' =
     (if l' = l then Some v else entry h s l')"
  using invariant_home [OF assms, of l]
  by (auto simp: entry_update_shard) (simp_all add: entry_def shard_of_def)

lemma entry_erase:
  assumes "invariant h s"
  shows "entry h (update_shard (home h l) (\<lambda>sh. sh\<lparr>map_tab := fmdrop l (map_tab sh)\<rparr>) s) l' =
     (if l' = l then None else entry h s l')"
  using invariant_home [OF assms, of l]
  by (auto simp: entry_update_shard) (simp_all add: entry_def shard_of_def)

lemma perform_invariant:
  assumes "invariant h s"
  shows "\<exists>r s'. perform h c s = Inr (r, s') \<and> invariant h s'"
  using assms
  by (cases c) (simp_all add: insert_label_eq find_label_eq erase_label_eq
      invariant_insert invariant_erase)

lemma perform_entry:
  assumes "invariant h s" and "perform h c s = Inr (r, s')" and "written c \<noteq> Some l"
  shows "entry h s' l = entry h s l"
  using assms
  by (cases c) (auto simp: insert_label_eq find_label_eq erase_label_eq entry_insert entry_erase)

lemma perform_find:
  assumes "invariant h s"
  shows "perform h (Find l) s = Inr (Found (case entry h s l of Some v \<Rightarrow> v | None \<Rightarrow> - 1), s)"
  using assms by (simp add: find_label_eq)

lemma run_invariant:
  assumes "invariant h s"
  shows "\<exists>rs s'. run h cs s = Inr (rs, s') \<and> invariant h s' \<and> length rs = length cs"
  using assms
proof (induction cs arbitrary: s)
  case Nil
  then show ?case by simp
next
  case (Cons c cs)
  from perform_invariant [OF Cons.prems, of c]
  obtain r s1 where p: "perform h c s = Inr (r, s1)" and i: "invariant h s1" by blast
  from Cons.IH [OF i] obtain rs s2 where
    "run h cs s1 = Inr (rs, s2)" "invariant h s2" "length rs = length cs" by blast
  with p show ?case by simp
qed

lemma run_keeps_entry:
  assumes "invariant h s" and "list_all (\<lambda>c. written c \<noteq> Some l) cs"
    and "run h cs s = Inr (rs, s')"
  shows "entry h s' l = entry h s l
       \<and> (\<forall>i < length cs. cs ! i = Find l \<longrightarrow>
            rs ! i = Found (case entry h s l of Some v \<Rightarrow> v | None \<Rightarrow> - 1))"
  using assms
proof (induction cs arbitrary: s rs)
  case Nil
  then show ?case by simp
next
  case (Cons c cs)
  from perform_invariant [OF Cons.prems(1), of c]
  obtain r s1 where p: "perform h c s = Inr (r, s1)" and i: "invariant h s1" by blast
  from run_invariant [OF i, of cs] obtain rs1 s2 where
    r: "run h cs s1 = Inr (rs1, s2)" by blast
  from p r Cons.prems(3) have eq: "rs = r # rs1" "s2 = s'" by simp_all
  note r = r [unfolded eq(2)]
  from Cons.prems(2) have w: "written c \<noteq> Some l" and ws: "list_all (\<lambda>c. written c \<noteq> Some l) cs"
    by simp_all
  have e1: "entry h s1 l = entry h s l" using Cons.prems(1) p w by (rule perform_entry)
  from Cons.IH [OF i ws r] e1 have
    ih: "entry h s' l = entry h s l"
      "\<forall>i < length cs. cs ! i = Find l \<longrightarrow>
            rs1 ! i = Found (case entry h s l of Some v \<Rightarrow> v | None \<Rightarrow> - 1)"
    by simp_all
  have hd: "c = Find l \<Longrightarrow> r = Found (case entry h s l of Some v \<Rightarrow> v | None \<Rightarrow> - 1)"
    using p perform_find [OF Cons.prems(1), of l] by simp
  show ?case
    using ih hd eq by (auto simp: nth_Cons split: nat.splits)
qed

section \<open>Labels and entries\<close>

text \<open>Under the invariant a label is in the structure exactly when its own shard has an
  entry for it; the lemmas below say how the set of labels and the number of entries
  change when one map is written.\<close>

lemma labels_iff_entry:
  assumes "invariant h s"
  shows "l \<in> labels s \<longleftrightarrow> entry h s l \<noteq> None"
proof
  assume "l \<in> labels s"
  then obtain i where i: "i < length (shards s)" and m: "l |\<in>| fmdom (map_tab (shards s ! i))"
    by (auto simp: labels_def in_set_conv_nth)
  from assms have "routed h s" by (simp add: invariant_def)
  with i m have "home h l = i" by (simp add: routed_def)
  with m show "entry h s l \<noteq> None"
    by (simp add: entry_def shard_of_def fmdom_iff_lookup)
next
  assume "entry h s l \<noteq> None"
  then have "l |\<in>| fmdom (map_tab (shards s ! home h l))"
    by (simp add: entry_def shard_of_def fmdom_iff_lookup)
  moreover have "shards s ! home h l \<in> set (shards s)"
    using invariant_home [OF assms] by simp
  ultimately show "l \<in> labels s"
    unfolding labels_def by blast
qed

lemma entries_update_shard:
  assumes "i < length (shards s)"
  shows "entries (update_shard i f s) + fcard (fmdom (map_tab (shards s ! i)))
       = entries s + fcard (fmdom (map_tab (f (shards s ! i))))"
proof -
  let ?g = "\<lambda>sh. fcard (fmdom (map_tab sh))"
  have k: "i < length (map ?g (shards s))" using assms by simp
  have "?g (shards s ! i) \<le> sum_list (map ?g (shards s))"
    using elem_le_sum_list [OF k] assms by simp
  then show ?thesis
    using assms sum_list_update [OF k, of "?g (f (shards s ! i))"]
    by (simp add: entries_def map_update)
qed

lemma entries_insert:
  assumes "invariant h s"
  shows "entries (update_shard (home h l) (\<lambda>sh. sh\<lparr>map_tab := fmupd l v (map_tab sh)\<rparr>) s)
       = (if l \<in> labels s then entries s else Suc (entries s))"
proof -
  let ?m = "map_tab (shards s ! home h l)"
  have p: "l \<in> labels s \<longleftrightarrow> l |\<in>| fmdom ?m"
    by (simp add: labels_iff_entry [OF assms] entry_def shard_of_def fmdom_iff_lookup)
  have "fcard (fmdom (fmupd l v ?m)) = (if l \<in> labels s then fcard (fmdom ?m) else Suc (fcard (fmdom ?m)))"
    by (simp add: p fcard_finsert_if)
  with entries_update_shard [OF invariant_home [OF assms], of l
      "\<lambda>sh. sh\<lparr>map_tab := fmupd l v (map_tab sh)\<rparr>"]
  show ?thesis by (simp split: if_splits)
qed

lemma entries_erase:
  assumes "invariant h s"
  shows "entries s
       = (if l \<in> labels s
          then Suc (entries (update_shard (home h l) (\<lambda>sh. sh\<lparr>map_tab := fmdrop l (map_tab sh)\<rparr>) s))
          else entries (update_shard (home h l) (\<lambda>sh. sh\<lparr>map_tab := fmdrop l (map_tab sh)\<rparr>) s))"
proof -
  let ?m = "map_tab (shards s ! home h l)"
  have p: "l \<in> labels s \<longleftrightarrow> l |\<in>| fmdom ?m"
    by (simp add: labels_iff_entry [OF assms] entry_def shard_of_def fmdom_iff_lookup)
  have "0 < fcard (fmdom ?m)" if "l |\<in>| fmdom ?m"
    using fcard_Suc_fminus1 [OF that] by arith
  then have "fcard (fmdom ?m) = (if l \<in> labels s then Suc (fcard (fmdom (fmdrop l ?m))) else fcard (fmdom (fmdrop l ?m)))"
    by (simp add: p)
  with entries_update_shard [OF invariant_home [OF assms], of l
      "\<lambda>sh. sh\<lparr>map_tab := fmdrop l (map_tab sh)\<rparr>"]
  show ?thesis by (simp split: if_splits)
qed

lemma labels_insert:
  assumes "invariant h s"
  shows "labels (update_shard (home h l) (\<lambda>sh. sh\<lparr>map_tab := fmupd l v (map_tab sh)\<rparr>) s)
       = insert l (labels s)"
  using labels_iff_entry [OF invariant_insert [OF assms]] labels_iff_entry [OF assms]
  by (auto simp: entry_insert [OF assms] split: if_splits)

lemma labels_erase:
  assumes "invariant h s"
  shows "labels (update_shard (home h l) (\<lambda>sh. sh\<lparr>map_tab := fmdrop l (map_tab sh)\<rparr>) s)
       = labels s - {l}"
  using labels_iff_entry [OF invariant_erase [OF assms]] labels_iff_entry [OF assms]
  by (auto simp: entry_erase [OF assms] split: if_splits)

lemma erase_absent:
  assumes "entry h s l = None"
  shows "update_shard (home h l) (\<lambda>sh. sh\<lparr>map_tab := fmdrop l (map_tab sh)\<rparr>) s = s"
proof (rule update_shard_same)
  from assms have "l |\<notin>| fmdom (map_tab (shards s ! home h l))"
    by (simp add: entry_def shard_of_def fmdom_iff_lookup)
  then show "(shards s ! home h l)\<lparr>map_tab := fmdrop l (map_tab (shards s ! home h l))\<rparr>
      = shards s ! home h l"
    by (simp add: fmdrop_idle)
qed

lemma labels_ctor: "labels (ShardedLabelLookup_ctor ()) = {}"
  by (simp add: labels_def ShardedLabelLookup_ctor_def)

lemma entries_ctor: "entries (ShardedLabelLookup_ctor ()) = 0"
  by (simp add: entries_def ShardedLabelLookup_ctor_def)

section \<open>Lookup after insertion\<close>

text \<open>
  Claim C1. After \<^verbatim>\<open>insert(L, id)\<close>, and after any sequence of calls none of which
  inserts or erases \<open>L\<close>, every \<^verbatim>\<open>find(L)\<close> of that sequence and a \<^verbatim>\<open>find(L)\<close> after
  it return \<open>id\<close>; a further \<^verbatim>\<open>insert(L, id2)\<close> makes \<^verbatim>\<open>find(L)\<close> return \<open>id2\<close>,
  and an \<^verbatim>\<open>erase(L)\<close> returns true and makes \<^verbatim>\<open>find(L)\<close> return the not-found value
  \<^verbatim>\<open>-1\<close>.
\<close>

theorem find_returns_last_insert:
  assumes "invariant h s" and "list_all (\<lambda>c. written c \<noteq> Some L) cs"
  shows "\<exists>rs s1. run h (Insert L v # cs) s = Inr (Returned # rs, s1)
          \<and> (\<forall>i < length cs. cs ! i = Find L \<longrightarrow> rs ! i = Found v)
          \<and> find_label h L s1 = Inr (v, s1)
          \<and> (\<exists>s2. insert_label h L v2 s1 = Inr s2 \<and> find_label h L s2 = Inr (v2, s2))
          \<and> (\<exists>s3. erase_label h L s1 = Inr (True, s3) \<and> find_label h L s3 = Inr (- 1, s3))"
proof -
  let ?s0 = "update_shard (home h L) (\<lambda>sh. sh\<lparr>map_tab := fmupd L v (map_tab sh)\<rparr>) s"
  have i0: "invariant h ?s0" using assms(1) by (rule invariant_insert)
  have e0: "entry h ?s0 L = Some v" by (simp add: entry_insert [OF assms(1)])
  from run_invariant [OF i0, of cs] obtain rs s1 where
    r: "run h cs ?s0 = Inr (rs, s1)" and i1: "invariant h s1" by blast
  from run_keeps_entry [OF i0 assms(2) r] e0 have
    e1: "entry h s1 L = Some v" and
    f: "\<forall>i < length cs. cs ! i = Find L \<longrightarrow> rs ! i = Found v" by simp_all
  have "run h (Insert L v # cs) s = Inr (Returned # rs, s1)"
    using r by (simp add: insert_label_eq [OF assms(1)])
  moreover have "find_label h L s1 = Inr (v, s1)"
    by (simp add: find_label_eq [OF i1] e1)
  moreover have "\<exists>s2. insert_label h L v2 s1 = Inr s2 \<and> find_label h L s2 = Inr (v2, s2)"
    by (simp add: insert_label_eq [OF i1] find_label_eq [OF invariant_insert [OF i1]]
        entry_insert [OF i1])
  moreover have "\<exists>s3. erase_label h L s1 = Inr (True, s3) \<and> find_label h L s3 = Inr (- 1, s3)"
    by (simp add: erase_label_eq [OF i1] find_label_eq [OF invariant_erase [OF i1]]
        entry_erase [OF i1] e1)
  ultimately show ?thesis using f by blast
qed

text \<open>The theorem at the identity hash on 64-bit labels, from a fresh structure.\<close>

theorem find_returns_last_insert_witness:
  "invariant (\<lambda>x. x) (ShardedLabelLookup_ctor () :: 64 word ShardedLabelLookup)
   \<and> list_all (\<lambda>c. written c \<noteq> Some (42 :: 64 word)) [Insert 43 1, Find 42, Erase 43, Find 42]
   \<and> (\<exists>rs s1. run (\<lambda>x. x) (Insert 42 7 # [Insert 43 1, Find 42, Erase 43, Find 42])
                 (ShardedLabelLookup_ctor ()) = Inr (Returned # rs, s1)
          \<and> (\<forall>i < length [Insert 43 1, Find 42, Erase 43, Find (42 :: 64 word)].
                [Insert 43 1, Find 42, Erase 43, Find (42 :: 64 word)] ! i = Find 42 \<longrightarrow> rs ! i = Found 7)
          \<and> find_label (\<lambda>x. x) 42 s1 = Inr (7, s1)
          \<and> (\<exists>s2. insert_label (\<lambda>x. x) 42 9 s1 = Inr s2 \<and> find_label (\<lambda>x. x) 42 s2 = Inr (9, s2))
          \<and> (\<exists>s3. erase_label (\<lambda>x. x) 42 s1 = Inr (True, s3)
                \<and> find_label (\<lambda>x. x) 42 s3 = Inr (- 1, s3)))"
proof -
  have a: "invariant (\<lambda>x. x) (ShardedLabelLookup_ctor () :: 64 word ShardedLabelLookup)"
    by (rule invariant_ctor)
  have b: "list_all (\<lambda>c. written c \<noteq> Some (42 :: 64 word)) [Insert 43 1, Find 42, Erase 43, Find 42]"
    by simp
  from find_returns_last_insert [OF a b, where v = 7 and ?v2.0 = 9] a b
  show ?thesis by blast
qed

section \<open>Insertion\<close>

text \<open>
  Claim C4. \<^verbatim>\<open>insert(label, id)\<close> returns for every label and every id. Afterwards the
  label's entry is \<open>id\<close>: when the label was there its id is overwritten and the number
  of entries stays, otherwise one entry is added. No other label appears or
  disappears, and the state after the call is again a state between calls.
\<close>

theorem insert_never_fails:
  assumes "invariant h s"
  shows "\<exists>s'. insert_label h L v s = Inr s' \<and> invariant h s'
           \<and> entry h s' L = Some v
           \<and> labels s' = insert L (labels s)
           \<and> entries s' = (if L \<in> labels s then entries s else Suc (entries s))"
  using assms
  by (simp add: insert_label_eq invariant_insert entry_insert labels_insert entries_insert)

text \<open>Inserting label 42 with id 7 into a fresh structure, with the identity hash.\<close>

theorem insert_never_fails_witness:
  "invariant (\<lambda>x. x) (ShardedLabelLookup_ctor () :: 64 word ShardedLabelLookup)
   \<and> (\<exists>s'. insert_label (\<lambda>x. x) (42 :: 64 word) 7 (ShardedLabelLookup_ctor ()) = Inr s'
          \<and> invariant (\<lambda>x. x) s'
          \<and> entry (\<lambda>x. x) s' 42 = Some 7
          \<and> labels s' = {42}
          \<and> entries s' = 1)"
proof -
  have a: "invariant (\<lambda>x. x) (ShardedLabelLookup_ctor () :: 64 word ShardedLabelLookup)"
    by (rule invariant_ctor)
  from insert_never_fails [OF a, of 42 7] a show ?thesis
    by (simp add: labels_ctor entries_ctor)
qed

section \<open>Erasure\<close>

text \<open>
  Claim C5. \<^verbatim>\<open>erase(label)\<close> returns true exactly when the structure had an entry for
  the label, and then that entry, and nothing else, is gone. On an absent label it
  returns false and the state after the call is the state before it. A second
  \<^verbatim>\<open>erase\<close> of the same label right after the first returns false: erasing a present
  label twice returns true, then false.
\<close>

theorem erase_reports_removal:
  assumes "invariant h s"
  shows "\<exists>s'. erase_label h L s = Inr (L \<in> labels s, s') \<and> invariant h s'
           \<and> labels s' = labels s - {L}
           \<and> entry h s' L = None
           \<and> entries s = (if L \<in> labels s then Suc (entries s') else entries s')
           \<and> (if L \<in> labels s then s' \<noteq> s else s' = s)
           \<and> erase_label h L s' = Inr (False, s')"
proof -
  let ?s' = "update_shard (home h L) (\<lambda>sh. sh\<lparr>map_tab := fmdrop L (map_tab sh)\<rparr>) s"
  have i': "invariant h ?s'" using assms by (rule invariant_erase)
  have e': "entry h ?s' L = None" by (simp add: entry_erase [OF assms])
  have "erase_label h L s = Inr (L \<in> labels s, ?s')"
    by (simp add: erase_label_eq [OF assms] labels_iff_entry [OF assms])
  moreover have "labels ?s' = labels s - {L}" using assms by (rule labels_erase)
  moreover have "entries s = (if L \<in> labels s then Suc (entries ?s') else entries ?s')"
    using assms by (rule entries_erase)
  moreover have "?s' = s" if "L \<notin> labels s"
    using that by (simp add: labels_iff_entry [OF assms] erase_absent)
  moreover have "?s' \<noteq> s" if "L \<in> labels s"
    using that e' by (auto simp: labels_iff_entry [OF assms])
  moreover have "erase_label h L ?s' = Inr (False, ?s')"
    by (simp add: erase_label_eq [OF i'] e' erase_absent)
  ultimately show ?thesis using i' e' by auto
qed

text \<open>Erasing label 42 from the structure that holds just this label.\<close>

theorem erase_reports_removal_witness:
  "invariant (\<lambda>x. x)
     (update_shard (home (\<lambda>x. x) (42 :: 64 word)) (\<lambda>sh. sh\<lparr>map_tab := fmupd 42 7 (map_tab sh)\<rparr>)
        (ShardedLabelLookup_ctor ()))
   \<and> (\<exists>s'. erase_label (\<lambda>x. x) (42 :: 64 word)
            (update_shard (home (\<lambda>x. x) (42 :: 64 word)) (\<lambda>sh. sh\<lparr>map_tab := fmupd 42 7 (map_tab sh)\<rparr>)
               (ShardedLabelLookup_ctor ())) = Inr (True, s')
          \<and> erase_label (\<lambda>x. x) 42 s' = Inr (False, s')
          \<and> labels s' = {})"
proof -
  let ?s = "update_shard (home (\<lambda>x. x) (42 :: 64 word)) (\<lambda>sh. sh\<lparr>map_tab := fmupd 42 7 (map_tab sh)\<rparr>)
        (ShardedLabelLookup_ctor () :: 64 word ShardedLabelLookup)"
  have a: "invariant (\<lambda>x. x) ?s"
    by (rule invariant_insert [OF invariant_ctor])
  have b: "labels ?s = {42}"
    by (simp add: labels_insert [OF invariant_ctor [of "\<lambda>x. x"]] labels_ctor)
  from erase_reports_removal [OF a, of 42] a show ?thesis
    by (auto simp: b)
qed

section \<open>What insert and erase leave alone\<close>

text \<open>
  Claim C6. \<^verbatim>\<open>insert(L, id)\<close> and \<^verbatim>\<open>erase(L)\<close> change at most the entry of \<open>L\<close> in the
  map of \<open>L\<close>'s shard: the vector keeps its length, every other shard is the same, the
  mutex of \<open>L\<close>'s shard is as before, every other key of \<open>L\<close>'s shard and the entry of
  every other label are the same, and the size of the map of \<open>L\<close>'s shard grows by one
  or stays (\<^verbatim>\<open>insert\<close>), shrinks by one or stays (\<^verbatim>\<open>erase\<close>).
\<close>

theorem insert_erase_frame:
  assumes "invariant h s"
  shows "\<exists>s1 b s2. insert_label h L v s = Inr s1 \<and> erase_label h L s = Inr (b, s2)
     \<and> length (shards s1) = length (shards s) \<and> length (shards s2) = length (shards s)
     \<and> (\<forall>i. i \<noteq> unat (get_shard_index h s L) \<longrightarrow>
            shards s1 ! i = shards s ! i \<and> shards s2 ! i = shards s ! i)
     \<and> mutex (shard_of h s1 L) = mutex (shard_of h s L)
     \<and> mutex (shard_of h s2 L) = mutex (shard_of h s L)
     \<and> (\<forall>l. l \<noteq> L \<longrightarrow>
            fmlookup (map_tab (shard_of h s1 L)) l = fmlookup (map_tab (shard_of h s L)) l
          \<and> fmlookup (map_tab (shard_of h s2 L)) l = fmlookup (map_tab (shard_of h s L)) l
          \<and> entry h s1 l = entry h s l \<and> entry h s2 l = entry h s l)
     \<and> fcard (fmdom (map_tab (shard_of h s1 L)))
         = (if L \<in> labels s then fcard (fmdom (map_tab (shard_of h s L)))
            else Suc (fcard (fmdom (map_tab (shard_of h s L)))))
     \<and> fcard (fmdom (map_tab (shard_of h s L)))
         = (if L \<in> labels s then Suc (fcard (fmdom (map_tab (shard_of h s2 L))))
            else fcard (fmdom (map_tab (shard_of h s2 L))))"
proof -
  let ?s1 = "update_shard (home h L) (\<lambda>sh. sh\<lparr>map_tab := fmupd L v (map_tab sh)\<rparr>) s"
  let ?s2 = "update_shard (home h L) (\<lambda>sh. sh\<lparr>map_tab := fmdrop L (map_tab sh)\<rparr>) s"
  let ?m = "map_tab (shards s ! home h L)"
  have k: "home h L < length (shards s)" using assms by (rule invariant_home)
  have p: "L \<in> labels s \<longleftrightarrow> L |\<in>| fmdom ?m"
    by (simp add: labels_iff_entry [OF assms] entry_def shard_of_def fmdom_iff_lookup)
  have pos: "0 < fcard (fmdom ?m)" if "L |\<in>| fmdom ?m"
    using fcard_Suc_fminus1 [OF that] by arith
  have "insert_label h L v s = Inr ?s1" using assms by (rule insert_label_eq)
  moreover have "erase_label h L s = Inr (entry h s L \<noteq> None, ?s2)"
    using assms by (rule erase_label_eq)
  moreover have "length (shards ?s1) = length (shards s)" "length (shards ?s2) = length (shards s)"
    by simp_all
  moreover have "\<forall>i. i \<noteq> unat (get_shard_index h s L) \<longrightarrow>
            shards ?s1 ! i = shards s ! i \<and> shards ?s2 ! i = shards s ! i"
    by simp
  moreover have "mutex (shard_of h ?s1 L) = mutex (shard_of h s L)"
    "mutex (shard_of h ?s2 L) = mutex (shard_of h s L)"
    using k by (simp_all add: shard_of_def)
  moreover have "\<forall>l. l \<noteq> L \<longrightarrow>
            fmlookup (map_tab (shard_of h ?s1 L)) l = fmlookup (map_tab (shard_of h s L)) l
          \<and> fmlookup (map_tab (shard_of h ?s2 L)) l = fmlookup (map_tab (shard_of h s L)) l
          \<and> entry h ?s1 l = entry h s l \<and> entry h ?s2 l = entry h s l"
    using k by (simp add: shard_of_def entry_insert [OF assms] entry_erase [OF assms])
  moreover have "fcard (fmdom (map_tab (shard_of h ?s1 L)))
         = (if L \<in> labels s then fcard (fmdom (map_tab (shard_of h s L)))
            else Suc (fcard (fmdom (map_tab (shard_of h s L)))))"
    using k by (simp add: shard_of_def p fcard_finsert_if)
  moreover have "fcard (fmdom (map_tab (shard_of h s L)))
         = (if L \<in> labels s then Suc (fcard (fmdom (map_tab (shard_of h ?s2 L))))
            else fcard (fmdom (map_tab (shard_of h ?s2 L))))"
    using k pos by (simp add: shard_of_def p)
  ultimately show ?thesis by blast
qed

text \<open>The shard indices of the labels of the examples, under the identity hash.\<close>

lemma home_identity_small:
  "home (\<lambda>x. x) (42 :: 64 word) = 42" "home (\<lambda>x. x) (7 :: 64 word) = 7"
  "home (\<lambda>x. x) (9 :: 64 word) = 9" "home (\<lambda>x. x) (43 :: 64 word) = 43"
  "home (\<lambda>x. x) (170 :: 64 word) = 42" "home (\<lambda>x. x) (298 :: 64 word) = 42"
  by (simp_all add: home_def get_shard_index_def NUM_SHARDS_def)

text \<open>
  The state after \<^verbatim>\<open>insert(170, 5)\<close>, \<^verbatim>\<open>insert(43, 1)\<close>, \<^verbatim>\<open>insert(42, 3)\<close> on a fresh
  structure: labels 42 and 170 share shard 42, label 43 is in shard 43. Overwriting
  and erasing the present label 42 leaves label 170 of the same shard, label 43 and
  shard 43 as they are; the map of shard 42 keeps its two entries on the overwrite and
  has one after the erasure. Inserting the absent label 298, also of shard 42, makes
  three entries and leaves the others; erasing it changes no size.
\<close>

theorem insert_erase_frame_witness:
  "\<exists>rs s. run (\<lambda>x. x) [Insert (170 :: 64 word) 5, Insert 43 1, Insert 42 3] (ShardedLabelLookup_ctor ())
            = Inr (rs, s)
     \<and> invariant (\<lambda>x. x) s
     \<and> entry (\<lambda>x. x) s 42 = Some 3 \<and> entry (\<lambda>x. x) s 170 = Some 5 \<and> entry (\<lambda>x. x) s 43 = Some 1
     \<and> fcard (fmdom (map_tab (shard_of (\<lambda>x. x) s 42))) = 2
     \<and> (\<exists>s1 b s2.
           insert_label (\<lambda>x. x) 42 7 s = Inr s1 \<and> erase_label (\<lambda>x. x) 42 s = Inr (b, s2)
         \<and> length (shards s1) = 128 \<and> length (shards s2) = 128
         \<and> shards s1 ! 43 = shards s ! 43 \<and> shards s2 ! 43 = shards s ! 43
         \<and> mutex (shard_of (\<lambda>x. x) s1 42) = mutex (shard_of (\<lambda>x. x) s 42)
         \<and> mutex (shard_of (\<lambda>x. x) s2 42) = mutex (shard_of (\<lambda>x. x) s 42)
         \<and> fmlookup (map_tab (shard_of (\<lambda>x. x) s1 42)) 170 = Some 5
         \<and> fmlookup (map_tab (shard_of (\<lambda>x. x) s2 42)) 170 = Some 5
         \<and> entry (\<lambda>x. x) s1 170 = Some 5 \<and> entry (\<lambda>x. x) s2 170 = Some 5
         \<and> entry (\<lambda>x. x) s1 43 = Some 1 \<and> entry (\<lambda>x. x) s2 43 = Some 1
         \<and> fcard (fmdom (map_tab (shard_of (\<lambda>x. x) s1 42))) = 2
         \<and> fcard (fmdom (map_tab (shard_of (\<lambda>x. x) s2 42))) = 1)
     \<and> (\<exists>s3 b s4.
           insert_label (\<lambda>x. x) 298 9 s = Inr s3 \<and> erase_label (\<lambda>x. x) 298 s = Inr (b, s4)
         \<and> shards s3 ! 43 = shards s ! 43 \<and> shards s4 ! 43 = shards s ! 43
         \<and> entry (\<lambda>x. x) s3 42 = Some 3 \<and> entry (\<lambda>x. x) s4 42 = Some 3
         \<and> entry (\<lambda>x. x) s3 170 = Some 5 \<and> entry (\<lambda>x. x) s4 170 = Some 5
         \<and> fcard (fmdom (map_tab (shard_of (\<lambda>x. x) s3 298))) = 3
         \<and> fcard (fmdom (map_tab (shard_of (\<lambda>x. x) s4 298))) = 2)"
proof -
  let ?h = "\<lambda>x :: 64 word. x"
  let ?c = "ShardedLabelLookup_ctor () :: 64 word ShardedLabelLookup"
  let ?a = "update_shard (home ?h 170) (\<lambda>sh. sh\<lparr>map_tab := fmupd 170 5 (map_tab sh)\<rparr>) ?c"
  let ?b = "update_shard (home ?h 43) (\<lambda>sh. sh\<lparr>map_tab := fmupd 43 1 (map_tab sh)\<rparr>) ?a"
  let ?s = "update_shard (home ?h 42) (\<lambda>sh. sh\<lparr>map_tab := fmupd 42 3 (map_tab sh)\<rparr>) ?b"
  have ia: "invariant ?h ?a" by (rule invariant_insert [OF invariant_ctor])
  have ib: "invariant ?h ?b" by (rule invariant_insert [OF ia])
  have inv: "invariant ?h ?s" by (rule invariant_insert [OF ib])
  have r: "run ?h [Insert 170 5, Insert 43 1, Insert 42 3] ?c = Inr ([Returned, Returned, Returned], ?s)"
    by (simp add: insert_label_eq [OF invariant_ctor] insert_label_eq [OF ia] insert_label_eq [OF ib])
  have ec: "entry ?h ?c l = None" for l
    using labels_iff_entry [OF invariant_ctor, of l ?h] by (simp add: labels_ctor)
  have e: "entry ?h ?s 42 = Some 3" "entry ?h ?s 170 = Some 5" "entry ?h ?s 43 = Some 1"
    "entry ?h ?s 298 = None"
    by (simp_all add: entry_insert [OF ib] entry_insert [OF ia] entry_insert [OF invariant_ctor] ec)
  have lb: "42 \<in> labels ?s" "298 \<notin> labels ?s"
    by (simp_all add: labels_iff_entry [OF inv] e)
  have sh: "shard_of ?h t 298 = shard_of ?h t 42" for t
    by (simp add: shard_of_def home_identity_small)
  have n: "fcard (fmdom (map_tab (shard_of ?h ?s 42))) = 2"
    by (simp add: shard_of_def home_identity_small ShardedLabelLookup_ctor_def NUM_SHARDS_def
        fcard_finsert_if)
  have len: "length (shards ?s) = 128" using inv by (rule invariant_length)
  have ix: "unat (get_shard_index ?h ?s 42) = 42" "unat (get_shard_index ?h ?s 298) = 42"
    by (simp_all add: home_identity_small)
  from insert_erase_frame [OF inv, of 42 7] obtain s1 b s2 where
    f: "insert_label ?h 42 7 ?s = Inr s1" "erase_label ?h 42 ?s = Inr (b, s2)"
       "length (shards s1) = length (shards ?s)" "length (shards s2) = length (shards ?s)"
       "\<forall>i. i \<noteq> unat (get_shard_index ?h ?s 42) \<longrightarrow>
            shards s1 ! i = shards ?s ! i \<and> shards s2 ! i = shards ?s ! i"
       "mutex (shard_of ?h s1 42) = mutex (shard_of ?h ?s 42)"
       "mutex (shard_of ?h s2 42) = mutex (shard_of ?h ?s 42)"
       "\<forall>l. l \<noteq> 42 \<longrightarrow>
            fmlookup (map_tab (shard_of ?h s1 42)) l = fmlookup (map_tab (shard_of ?h ?s 42)) l
          \<and> fmlookup (map_tab (shard_of ?h s2 42)) l = fmlookup (map_tab (shard_of ?h ?s 42)) l
          \<and> entry ?h s1 l = entry ?h ?s l \<and> entry ?h s2 l = entry ?h ?s l"
       "fcard (fmdom (map_tab (shard_of ?h s1 42)))
         = (if 42 \<in> labels ?s then fcard (fmdom (map_tab (shard_of ?h ?s 42)))
            else Suc (fcard (fmdom (map_tab (shard_of ?h ?s 42)))))"
       "fcard (fmdom (map_tab (shard_of ?h ?s 42)))
         = (if 42 \<in> labels ?s then Suc (fcard (fmdom (map_tab (shard_of ?h s2 42))))
            else fcard (fmdom (map_tab (shard_of ?h s2 42))))"
    by blast
  have l170: "fmlookup (map_tab (shard_of ?h ?s 42)) 170 = Some 5"
    using e(2) by (simp add: entry_def shard_of_def home_identity_small)
  have p1: "shards s1 ! 43 = shards ?s ! 43" "shards s2 ! 43 = shards ?s ! 43"
    using f(5) ix by simp_all
  have p2: "fmlookup (map_tab (shard_of ?h s1 42)) 170 = Some 5"
    "fmlookup (map_tab (shard_of ?h s2 42)) 170 = Some 5"
    "entry ?h s1 170 = Some 5" "entry ?h s2 170 = Some 5"
    "entry ?h s1 43 = Some 1" "entry ?h s2 43 = Some 1"
    using f(8) e l170 by simp_all
  have p3: "fcard (fmdom (map_tab (shard_of ?h s1 42))) = 2"
    "fcard (fmdom (map_tab (shard_of ?h s2 42))) = 1"
    using f(9,10) n lb by simp_all
  have first: "\<exists>s1 b s2.
           insert_label ?h 42 7 ?s = Inr s1 \<and> erase_label ?h 42 ?s = Inr (b, s2)
         \<and> length (shards s1) = 128 \<and> length (shards s2) = 128
         \<and> shards s1 ! 43 = shards ?s ! 43 \<and> shards s2 ! 43 = shards ?s ! 43
         \<and> mutex (shard_of ?h s1 42) = mutex (shard_of ?h ?s 42)
         \<and> mutex (shard_of ?h s2 42) = mutex (shard_of ?h ?s 42)
         \<and> fmlookup (map_tab (shard_of ?h s1 42)) 170 = Some 5
         \<and> fmlookup (map_tab (shard_of ?h s2 42)) 170 = Some 5
         \<and> entry ?h s1 170 = Some 5 \<and> entry ?h s2 170 = Some 5
         \<and> entry ?h s1 43 = Some 1 \<and> entry ?h s2 43 = Some 1
         \<and> fcard (fmdom (map_tab (shard_of ?h s1 42))) = 2
         \<and> fcard (fmdom (map_tab (shard_of ?h s2 42))) = 1"
    using f(1,2) f(3,4) [unfolded len] p1 f(6,7) p2 p3
    by (intro exI conjI) assumption+
  from insert_erase_frame [OF inv, of 298 9] obtain s3 b' s4 where
    g: "insert_label ?h 298 9 ?s = Inr s3" "erase_label ?h 298 ?s = Inr (b', s4)"
       "\<forall>i. i \<noteq> unat (get_shard_index ?h ?s 298) \<longrightarrow>
            shards s3 ! i = shards ?s ! i \<and> shards s4 ! i = shards ?s ! i"
       "\<forall>l. l \<noteq> 298 \<longrightarrow>
            fmlookup (map_tab (shard_of ?h s3 298)) l = fmlookup (map_tab (shard_of ?h ?s 298)) l
          \<and> fmlookup (map_tab (shard_of ?h s4 298)) l = fmlookup (map_tab (shard_of ?h ?s 298)) l
          \<and> entry ?h s3 l = entry ?h ?s l \<and> entry ?h s4 l = entry ?h ?s l"
       "fcard (fmdom (map_tab (shard_of ?h s3 298)))
         = (if 298 \<in> labels ?s then fcard (fmdom (map_tab (shard_of ?h ?s 298)))
            else Suc (fcard (fmdom (map_tab (shard_of ?h ?s 298)))))"
       "fcard (fmdom (map_tab (shard_of ?h ?s 298)))
         = (if 298 \<in> labels ?s then Suc (fcard (fmdom (map_tab (shard_of ?h s4 298))))
            else fcard (fmdom (map_tab (shard_of ?h s4 298))))"
    by blast
  have q1: "shards s3 ! 43 = shards ?s ! 43" "shards s4 ! 43 = shards ?s ! 43"
    using g(3) ix by simp_all
  have q2: "entry ?h s3 42 = Some 3" "entry ?h s4 42 = Some 3"
    "entry ?h s3 170 = Some 5" "entry ?h s4 170 = Some 5"
    using g(4) e by simp_all
  have q3: "fcard (fmdom (map_tab (shard_of ?h s3 298))) = 3"
    "fcard (fmdom (map_tab (shard_of ?h s4 298))) = 2"
    using g(5,6) n lb by (simp_all add: sh)
  have second: "\<exists>s3 b s4.
           insert_label ?h 298 9 ?s = Inr s3 \<and> erase_label ?h 298 ?s = Inr (b, s4)
         \<and> shards s3 ! 43 = shards ?s ! 43 \<and> shards s4 ! 43 = shards ?s ! 43
         \<and> entry ?h s3 42 = Some 3 \<and> entry ?h s4 42 = Some 3
         \<and> entry ?h s3 170 = Some 5 \<and> entry ?h s4 170 = Some 5
         \<and> fcard (fmdom (map_tab (shard_of ?h s3 298))) = 3
         \<and> fcard (fmdom (map_tab (shard_of ?h s4 298))) = 2"
    using g(1,2) q1 q2 q3
    by (intro exI conjI) assumption+
  show ?thesis
    apply (rule exI [of _ "[Returned, Returned, Returned]"])
    apply (rule exI [of _ ?s])
    using r inv e(1,2,3) n first second
    apply (intro conjI)
    apply assumption+
    done
qed

section \<open>The not-found value of find\<close>

text \<open>
  Claim C10. The value \<^verbatim>\<open>find\<close> returns for an absent label, \<^verbatim>\<open>-1\<close> converted to
  \<^verbatim>\<open>tableint\<close>, is the id \<open>0xFFFFFFFF\<close>, which \<^verbatim>\<open>insert\<close> stores like any other: after
  \<^verbatim>\<open>insert(L, 0xFFFFFFFF)\<close> the call \<^verbatim>\<open>find(L)\<close> returns \<open>0xFFFFFFFF\<close> with the entry
  present, and after \<^verbatim>\<open>erase(L)\<close> it returns the same value with the entry absent.
\<close>

theorem find_sentinel_collides_with_max_id:
  assumes "invariant h s"
  shows "\<exists>s1 s2. insert_label h L 0xFFFFFFFF s = Inr s1
           \<and> entry h s1 L = Some 0xFFFFFFFF
           \<and> find_label h L s1 = Inr (0xFFFFFFFF, s1)
           \<and> erase_label h L s1 = Inr (True, s2)
           \<and> entry h s2 L = None
           \<and> find_label h L s2 = Inr (0xFFFFFFFF, s2)"
proof -
  let ?s1 = "update_shard (home h L) (\<lambda>sh. sh\<lparr>map_tab := fmupd L 0xFFFFFFFF (map_tab sh)\<rparr>) s"
  let ?s2 = "update_shard (home h L) (\<lambda>sh. sh\<lparr>map_tab := fmdrop L (map_tab sh)\<rparr>) ?s1"
  have i1: "invariant h ?s1" using assms by (rule invariant_insert)
  have i2: "invariant h ?s2" using i1 by (rule invariant_erase)
  have e1: "entry h ?s1 L = Some 0xFFFFFFFF" by (simp add: entry_insert [OF assms])
  have e2: "entry h ?s2 L = None" by (simp add: entry_erase [OF i1])
  have m: "(- 1 :: tableint) = 0xFFFFFFFF" by simp
  have "insert_label h L 0xFFFFFFFF s = Inr ?s1" using assms by (rule insert_label_eq)
  moreover have "find_label h L ?s1 = Inr (0xFFFFFFFF, ?s1)"
    by (simp add: find_label_eq [OF i1] e1)
  moreover have "erase_label h L ?s1 = Inr (True, ?s2)"
    by (simp add: erase_label_eq [OF i1] e1)
  moreover have "find_label h L ?s2 = Inr (0xFFFFFFFF, ?s2)"
    by (simp add: find_label_eq [OF i2] e2 m)
  ultimately show ?thesis using e1 e2 by blast
qed

text \<open>Label 42 on a fresh structure.\<close>

theorem find_sentinel_collides_with_max_id_witness:
  "invariant (\<lambda>x. x) (ShardedLabelLookup_ctor () :: 64 word ShardedLabelLookup)
   \<and> (\<exists>s1 s2. insert_label (\<lambda>x. x) (42 :: 64 word) 0xFFFFFFFF (ShardedLabelLookup_ctor ()) = Inr s1
           \<and> entry (\<lambda>x. x) s1 42 = Some 0xFFFFFFFF
           \<and> find_label (\<lambda>x. x) 42 s1 = Inr (0xFFFFFFFF, s1)
           \<and> erase_label (\<lambda>x. x) 42 s1 = Inr (True, s2)
           \<and> entry (\<lambda>x. x) s2 42 = None
           \<and> find_label (\<lambda>x. x) 42 s2 = Inr (0xFFFFFFFF, s2))"
proof -
  have a: "invariant (\<lambda>x. x) (ShardedLabelLookup_ctor () :: 64 word ShardedLabelLookup)"
    by (rule invariant_ctor)
  from find_sentinel_collides_with_max_id [OF a, of 42] a show ?thesis
    by blast
qed

section \<open>The labels of a reachable state\<close>

text \<open>\<open>live\<close> is computed call by call; \<open>live_iff\<close> says that it is the set of the labels
  some call inserts with no later call erasing them.\<close>

lemma live_snoc: "live (cs @ [c]) = live_step (live cs) c"
  by (simp add: live_def)

lemma live_iff:
  "l \<in> live cs \<longleftrightarrow>
     (\<exists>i < length cs. (\<exists>v. cs ! i = Insert l v) \<and> (\<forall>j. i < j \<and> j < length cs \<longrightarrow> cs ! j \<noteq> Erase l))"
proof (induction cs rule: rev_induct)
  case Nil
  then show ?case by (simp add: live_def)
next
  case (snoc c cs)
  define P where
    "P = (\<lambda>cs i. (\<exists>v. cs ! i = Insert l v) \<and> (\<forall>j. i < j \<and> j < length cs \<longrightarrow> cs ! j \<noteq> Erase l))"
  have old: "P (cs @ [c]) i \<longleftrightarrow> P cs i \<and> c \<noteq> Erase l" if "i < length cs" for i
  proof
    assume a: "P (cs @ [c]) i"
    from a that have "\<exists>v. cs ! i = Insert l v" by (simp add: P_def nth_append)
    moreover have "cs ! j \<noteq> Erase l" if "i < j" "j < length cs" for j
      using a that by (auto simp: P_def nth_append dest!: spec [of _ j])
    moreover have "c \<noteq> Erase l"
      using a \<open>i < length cs\<close> by (auto simp: P_def dest!: spec [of _ "length cs"])
    ultimately show "P cs i \<and> c \<noteq> Erase l" by (simp add: P_def)
  next
    assume "P cs i \<and> c \<noteq> Erase l"
    with that show "P (cs @ [c]) i"
      by (auto simp: P_def nth_append less_Suc_eq)
  qed
  have new: "P (cs @ [c]) (length cs) \<longleftrightarrow> (\<exists>v. c = Insert l v)"
    by (auto simp: P_def)
  have ih: "l \<in> live cs \<longleftrightarrow> (\<exists>i < length cs. P cs i)"
    using snoc.IH by (simp add: P_def)
  have "(\<exists>i < length (cs @ [c]). P (cs @ [c]) i)
      \<longleftrightarrow> (\<exists>i < length cs. P (cs @ [c]) i) \<or> P (cs @ [c]) (length cs)"
    by (auto simp: less_Suc_eq)
  also have "\<dots> \<longleftrightarrow> (\<exists>i < length cs. P cs i \<and> c \<noteq> Erase l) \<or> (\<exists>v. c = Insert l v)"
    using old new by blast
  also have "\<dots> \<longleftrightarrow> l \<in> live_step (live cs) c"
    using ih by (cases c) auto
  finally show ?case by (simp add: live_snoc P_def)
qed

lemma finite_labels: "finite (labels s)"
  by (simp add: labels_def)

lemma perform_labels:
  assumes "invariant h s" and "perform h c s = Inr (r, s')"
  shows "labels s' = live_step (labels s) c"
    and "entries s = card (labels s) \<Longrightarrow> entries s' = card (labels s')"
proof -
  show "labels s' = live_step (labels s) c"
    using assms
    by (cases c) (auto simp: insert_label_eq find_label_eq erase_label_eq labels_insert labels_erase)
  show "entries s' = card (labels s')" if e: "entries s = card (labels s)"
  proof (cases c)
    case (Insert l v)
    with assms have "s' = update_shard (home h l) (\<lambda>sh. sh\<lparr>map_tab := fmupd l v (map_tab sh)\<rparr>) s"
      by (simp add: insert_label_eq)
    then show ?thesis
      using e finite_labels [of s]
      by (simp add: entries_insert [OF assms(1)] labels_insert [OF assms(1)] card_insert_if)
  next
    case (Find l)
    with assms e show ?thesis by (simp add: find_label_eq)
  next
    case (Erase l)
    with assms have s': "s' = update_shard (home h l) (\<lambda>sh. sh\<lparr>map_tab := fmdrop l (map_tab sh)\<rparr>) s"
      by (simp add: erase_label_eq)
    have "card (labels s) = (if l \<in> labels s then Suc (card (labels s - {l})) else card (labels s - {l}))"
    proof (cases "l \<in> labels s")
      case True
      with card_Suc_Diff1 [OF finite_labels True] show ?thesis by (simp only: if_True)
    next
      case False
      then show ?thesis by simp
    qed
    with entries_erase [OF assms(1), of l] e show ?thesis
      unfolding s' labels_erase [OF assms(1)] by (simp split: if_splits)
  qed
qed

lemma run_labels:
  assumes "invariant h s" and "run h cs s = Inr (rs, s')"
  shows "labels s' = foldl live_step (labels s) cs
       \<and> (entries s = card (labels s) \<longrightarrow> entries s' = card (labels s'))"
  using assms
proof (induction cs arbitrary: s rs)
  case Nil
  then show ?case by simp
next
  case (Cons c cs)
  from perform_invariant [OF Cons.prems(1), of c]
  obtain r s1 where p: "perform h c s = Inr (r, s1)" and i: "invariant h s1" by blast
  from run_invariant [OF i, of cs] obtain rs1 s2 where
    r: "run h cs s1 = Inr (rs1, s2)" by blast
  from p r Cons.prems(2) have eq: "s2 = s'" by simp
  from Cons.IH [OF i r [unfolded eq]] perform_labels [OF Cons.prems(1) p]
  show ?case by simp
qed

lemma shard_has_label_iff:
  assumes "invariant h s" and "i < length (shards s)"
  shows "l |\<in>| fmdom (map_tab (shards s ! i)) \<longleftrightarrow> l \<in> labels s \<and> i = home h l"
proof
  assume m: "l |\<in>| fmdom (map_tab (shards s ! i))"
  from assms(1) have "routed h s" by (simp add: invariant_def)
  with assms(2) m have "home h l = i" by (simp add: routed_def)
  moreover from m nth_mem [OF assms(2)] have "l \<in> labels s"
    unfolding labels_def by blast
  ultimately show "l \<in> labels s \<and> i = home h l" by simp
next
  assume "l \<in> labels s \<and> i = home h l"
  then show "l |\<in>| fmdom (map_tab (shards s ! i))"
    by (simp add: labels_iff_entry [OF assms(1)] entry_def shard_of_def fmdom_iff_lookup)
qed

text \<open>
  Claim C2. After any sequence of \<^verbatim>\<open>insert\<close>, \<^verbatim>\<open>find\<close> and \<^verbatim>\<open>erase\<close> calls on a fresh
  structure (every call of the sequence returns), a label is a key of the map of shard
  \<open>i\<close> exactly when it was inserted and not erased afterwards and \<open>i\<close> is the index
  \<^verbatim>\<open>get_shard_index\<close> gives it: each present label is in one shard only, its own. The
  labels of all shards together are the labels inserted and not erased afterwards, and
  the number of entries of all maps together is the number of these labels, so none is
  lost and none is stored twice.
\<close>

theorem labels_partitioned_over_shards:
  "\<exists>rs s. run h cs (ShardedLabelLookup_ctor ()) = Inr (rs, s)
     \<and> length (shards s) = unat NUM_SHARDS
     \<and> labels s = live cs
     \<and> (\<forall>l i. i < length (shards s) \<longrightarrow>
           (l |\<in>| fmdom (map_tab (shards s ! i))
              \<longleftrightarrow> l \<in> live cs \<and> i = unat (get_shard_index h s l)))
     \<and> entries s = card (live cs)"
proof -
  have i0: "invariant h (ShardedLabelLookup_ctor ())" by (rule invariant_ctor)
  from run_invariant [OF i0, of cs] obtain rs s where
    r: "run h cs (ShardedLabelLookup_ctor ()) = Inr (rs, s)" and i: "invariant h s" by blast
  from run_labels [OF i0 r] have l: "labels s = live cs" and e: "entries s = card (live cs)"
    by (simp_all add: labels_ctor entries_ctor live_def)
  from i have n: "length (shards s) = unat NUM_SHARDS" by (simp add: invariant_def)
  have "\<forall>l i. i < length (shards s) \<longrightarrow>
           (l |\<in>| fmdom (map_tab (shards s ! i))
              \<longleftrightarrow> l \<in> live cs \<and> i = unat (get_shard_index h s l))"
    using shard_has_label_iff [OF i] l by simp
  with r n l e show ?thesis by blast
qed

text \<open>Labels 1 and 129 share shard 1 under the identity hash; label 1 is erased.\<close>

theorem labels_partitioned_over_shards_witness:
  "\<exists>rs s. run (\<lambda>x. x) [Insert (1 :: 64 word) 10, Insert 129 20, Insert 2 30, Erase 1, Find 2]
              (ShardedLabelLookup_ctor ()) = Inr (rs, s)
     \<and> length (shards s) = 128
     \<and> labels s = {129, 2}
     \<and> 129 |\<in>| fmdom (map_tab (shards s ! 1))
     \<and> 129 |\<notin>| fmdom (map_tab (shards s ! 2))
     \<and> 1 |\<notin>| fmdom (map_tab (shards s ! 1))
     \<and> entries s = 2"
proof -
  let ?cs = "[Insert (1 :: 64 word) 10, Insert 129 20, Insert 2 30, Erase 1, Find 2]"
  have lv: "live ?cs = {129, 2}" by (auto simp: live_def)
  have ix: "\<And>s. unat (get_shard_index (\<lambda>x. x) s (129 :: 64 word)) = 1"
    "\<And>s. unat (get_shard_index (\<lambda>x. x) s (1 :: 64 word)) = 1"
    by (simp_all add: get_shard_index_def NUM_SHARDS_def)
  from labels_partitioned_over_shards [of "\<lambda>x. x" ?cs] obtain rs s where
    f: "run (\<lambda>x. x) ?cs (ShardedLabelLookup_ctor ()) = Inr (rs, s)"
       "length (shards s) = unat NUM_SHARDS"
       "labels s = live ?cs"
       "\<forall>l i. i < length (shards s) \<longrightarrow>
           (l |\<in>| fmdom (map_tab (shards s ! i))
              \<longleftrightarrow> l \<in> live ?cs \<and> i = unat (get_shard_index (\<lambda>x. x) s l))"
       "entries s = card (live ?cs)"
    by blast
  have n: "length (shards s) = 128" using f(2) by (simp add: NUM_SHARDS_def)
  have a: "129 |\<in>| fmdom (map_tab (shards s ! 1))"
    using f(4) [rule_format, of 1 129] n by (simp only: lv ix) simp
  have b: "129 |\<notin>| fmdom (map_tab (shards s ! 2))"
    using f(4) [rule_format, of 2 129] n by (simp only: lv ix) simp
  have c: "1 |\<notin>| fmdom (map_tab (shards s ! 1))"
    using f(4) [rule_format, of 1 1] n by (simp only: lv ix) simp
  have d: "entries s = 2" using f(5) by (simp add: lv)
  show ?thesis using f(1) n f(3) [unfolded lv] a b c d by blast
qed

section \<open>The number of shards\<close>

lemma unique_lock_length: "unique_lock idx s = Inr s1 \<Longrightarrow> length (shards s1) = length (shards s)"
  by (auto simp: unique_lock_def split: if_splits sum.splits)

lemma shared_lock_length: "shared_lock idx s = Inr s1 \<Longrightarrow> length (shards s1) = length (shards s)"
  by (auto simp: shared_lock_def split: if_splits sum.splits)

lemma perform_length:
  assumes "perform h c s = Inr (r, s')"
  shows "length (shards s') = length (shards s)"
proof (cases c)
  case (Insert l v)
  with assms show ?thesis
    by (auto simp: insert_label_def unique_lock_dtor_def Let_def
        split: sum.splits dest!: unique_lock_length)
next
  case (Find l)
  with assms show ?thesis
    by (auto simp: find_label_def shared_lock_dtor_def Let_def
        split: sum.splits dest!: shared_lock_length)
next
  case (Erase l)
  with assms show ?thesis
    by (auto simp: erase_label_def unique_lock_dtor_def Let_def
        split: sum.splits prod.splits dest!: unique_lock_length)
qed

text \<open>
  Claim C7, as the code has it. The constructor takes no argument: the shard count is
  the compile-time constant \<^verbatim>\<open>NUM_SHARDS\<close>, which is 128. Every constructed structure
  has 128 shards, no call that returns changes the length of the vector, whatever the
  state it starts in, and every sequence of calls on a fresh structure ends with 128
  shards.
\<close>

theorem shard_count_is_constant_128:
  "length (shards (ShardedLabelLookup_ctor ())) = unat NUM_SHARDS \<and> unat NUM_SHARDS = 128
   \<and> (perform h c s = Inr (r, s') \<longrightarrow> length (shards s') = length (shards s))
   \<and> (\<exists>rs t. run h cs (ShardedLabelLookup_ctor ()) = Inr (rs, t) \<and> length (shards t) = 128)"
proof -
  from run_invariant [OF invariant_ctor, of h cs] obtain rs t where
    "run h cs (ShardedLabelLookup_ctor ()) = Inr (rs, t)" "invariant h t" by blast
  then have "\<exists>rs t. run h cs (ShardedLabelLookup_ctor ()) = Inr (rs, t) \<and> length (shards t) = 128"
    by (auto simp: invariant_length)
  then show ?thesis
    by (simp add: perform_length) (simp add: ShardedLabelLookup_ctor_def NUM_SHARDS_def)
qed

text \<open>An insertion into a fresh structure leaves 128 shards.\<close>

theorem shard_count_is_constant_128_witness:
  "\<exists>s'. perform (\<lambda>x. x) (Insert (42 :: 64 word) 7) (ShardedLabelLookup_ctor ()) = Inr (Returned, s')
     \<and> length (shards s') = 128"
proof -
  let ?c = "ShardedLabelLookup_ctor () :: 64 word ShardedLabelLookup"
  obtain s' where p: "perform (\<lambda>x. x) (Insert (42 :: 64 word) 7) ?c = Inr (Returned, s')"
    by (simp add: insert_label_eq [OF invariant_ctor])
  from shard_count_is_constant_128 [of "\<lambda>x. x" "Insert 42 7" ?c Returned s' "[]"]
  have "length (shards ?c) = unat NUM_SHARDS" and "unat NUM_SHARDS = 128"
    and "perform (\<lambda>x. x) (Insert 42 7) ?c = Inr (Returned, s') \<longrightarrow>
      length (shards s') = length (shards ?c)"
    by blast+
  with p have "length (shards s') = 128" by (simp only:)
  with p show ?thesis by blast
qed

text \<open>
  The claim as the specification states it, with the shard count a parameter of the
  construction, fails at the count 64: the constructor of the code builds 128 shards,
  not the 64 of the specification's construction, and on a structure of 64 shards
  \<^verbatim>\<open>insert\<close> of a label whose hash is 100 indexes the vector at 100, past its end,
  because \<^verbatim>\<open>get_shard_index\<close> divides by the constant 128 and not by the number of
  shards.
\<close>

theorem shard_count_not_a_parameter:
  "(ShardedLabelLookup_ctor () :: 64 word ShardedLabelLookup) \<noteq> spec_ShardedLabelLookup_ctor 64
   \<and> length (shards (ShardedLabelLookup_ctor () :: 64 word ShardedLabelLookup)) = 128
   \<and> length (shards (spec_ShardedLabelLookup_ctor 64 :: 64 word ShardedLabelLookup)) = 64
   \<and> insert_label (\<lambda>x. x) (100 :: 64 word) 7 (spec_ShardedLabelLookup_ctor 64) = Inl Out_of_range"
proof -
  have a: "length (shards (ShardedLabelLookup_ctor () :: 64 word ShardedLabelLookup)) = 128"
    by (simp add: ShardedLabelLookup_ctor_def NUM_SHARDS_def)
  have b: "length (shards (spec_ShardedLabelLookup_ctor 64 :: 64 word ShardedLabelLookup)) = 64"
    by (simp add: spec_ShardedLabelLookup_ctor_def)
  have c: "insert_label (\<lambda>x. x) (100 :: 64 word) 7 (spec_ShardedLabelLookup_ctor 64) = Inl Out_of_range"
    by (simp add: insert_label_def unique_lock_def b home_def get_shard_index_def NUM_SHARDS_def)
  from a b have "(ShardedLabelLookup_ctor () :: 64 word ShardedLabelLookup) \<noteq> spec_ShardedLabelLookup_ctor 64"
    by auto
  with a b c show ?thesis by blast
qed

section \<open>Locks\<close>



















section \<open>Calls in the scope of a timer\<close>

text \<open>The destructor of a timer returns when the profiler's mutex is free, and leaves it
  free; it does not get the lookup, so a timed call does to the lookup what the call
  does.\<close>

lemma Timer_dtor_free:
  assumes "\<not> events_mutex p"
  shows "\<exists>p'. Timer_dtor t now thread p = Inr p' \<and> \<not> events_mutex p'"
  using assms by (simp add: Timer_dtor_def Let_def)

lemma perform_timed_observed:
  assumes "\<not> events_mutex p"
  shows "(case perform h (untimed tc) s of
            Inl e \<Rightarrow> perform_timed h thread tc (s, p) = Inl e
          | Inr (r, s1) \<Rightarrow> (\<exists>p1. perform_timed h thread tc (s, p) = Inr (r, s1, p1) \<and> \<not> events_mutex p1))"
proof -
  obtain the_tag t_start t_end c where tc: "tc = (the_tag, t_start, t_end, c)"
    by (cases tc) auto
  show ?thesis
  proof (cases "perform h c s")
    case (Inl e)
    then show ?thesis by (simp add: tc)
  next
    case (Inr rs)
    obtain r s1 where rs: "rs = (r, s1)" by (cases rs)
    from Timer_dtor_free [OF assms, where t = "Timer_ctor the_tag t_start" and now = t_end and thread = thread]
    obtain p1 where "Timer_dtor (Timer_ctor the_tag t_start) t_end thread p = Inr p1"
      "\<not> events_mutex p1" by blast
    with Inr rs show ?thesis by (simp add: tc)
  qed
qed

lemma run_timed_observed:
  assumes "\<not> events_mutex p"
  shows "observed (run_timed h thread tcs (s, p)) = run h (map untimed tcs) s
       \<and> (\<forall>rs s' p'. run_timed h thread tcs (s, p) = Inr (rs, s', p') \<longrightarrow> \<not> events_mutex p')"
  using assms
proof (induction tcs arbitrary: s p)
  case Nil
  then show ?case by simp
next
  case (Cons tc tcs)
  show ?case
  proof (cases "perform h (untimed tc) s")
    case (Inl e)
    with perform_timed_observed [OF Cons.prems, where h = h and tc = tc and s = s and thread = thread]
    show ?thesis by simp
  next
    case (Inr rs)
    obtain r s1 where rs: "rs = (r, s1)" by (cases rs)
    from perform_timed_observed [OF Cons.prems, where h = h and tc = tc and s = s and thread = thread] Inr rs
    obtain p1 where pt: "perform_timed h thread tc (s, p) = Inr (r, s1, p1)"
      and f: "\<not> events_mutex p1" by auto
    from Cons.IH [OF f, where s = s1] have
      ih: "observed (run_timed h thread tcs (s1, p1)) = run h (map untimed tcs) s1"
      "\<forall>rs s' p'. run_timed h thread tcs (s1, p1) = Inr (rs, s', p') \<longrightarrow> \<not> events_mutex p'"
      by simp_all
    show ?thesis
    proof (cases "run_timed h thread tcs (s1, p1)")
      case (Inl e)
      with ih(1) have "run h (map untimed tcs) s1 = Inl e" by simp
      with Inl pt Inr rs show ?thesis by simp
    next
      case (Inr x)
      obtain rs' s' p' where x: "x = (rs', s', p')" by (cases x)
      from Inr x ih(1) have "run h (map untimed tcs) s1 = Inr (rs', s')" by simp
      moreover from Inr x ih(2) have "\<not> events_mutex p'" by simp
      ultimately show ?thesis
        using Inr x pt \<open>perform h (untimed tc) s = Inr rs\<close> rs by simp
    qed
  qed
qed

text \<open>
  Claim C9. For every sequence of calls, every tag and every pair of clock readings
  per call, and every state of the lookup: when the profiler's mutex is free, the
  values returned and the final state of the lookup are the same whether each call
  runs in the scope of a \<^verbatim>\<open>Timer\<close> or on its own; a sequence that does not return
  untimed does not return timed, with the same fault.
\<close>

theorem timer_does_not_change_lookup:
  assumes "\<not> events_mutex p"
  shows "observed (run_timed h thread tcs (s, p)) = run h (map untimed tcs) s"
  using run_timed_observed [OF assms] by blast

text \<open>Four timed calls on a fresh structure with the profiler in its static initial
  state, and the values the untimed calls return.\<close>

theorem timer_does_not_change_lookup_witness:
  "\<not> events_mutex (HNSWLightProfiler_static ())
   \<and> observed (run_timed (\<lambda>x. x) 1
        [(''insert'', 100, 105, Insert (42 :: 64 word) 7), (''find'', 110, 112, Find 42),
         (''erase'', 120, 121, Erase 42), (''find'', 130, 131, Find 42)]
        (ShardedLabelLookup_ctor (), HNSWLightProfiler_static ()))
     = run (\<lambda>x. x) [Insert 42 7, Find 42, Erase 42, Find 42] (ShardedLabelLookup_ctor ())
   \<and> (\<exists>s. run (\<lambda>x. x) [Insert (42 :: 64 word) 7, Find 42, Erase 42, Find 42] (ShardedLabelLookup_ctor ())
          = Inr ([Returned, Found 7, Erased True, Found (- 1)], s))"
proof -
  have a: "\<not> events_mutex (HNSWLightProfiler_static ())"
    by (simp add: HNSWLightProfiler_static_def)
  have b: "map_sum id fst (run (\<lambda>x. x) [Insert (42 :: 64 word) 7, Find 42, Erase 42, Find 42] (ShardedLabelLookup_ctor ()))
          = Inr [Returned, Found 7, Erased True, Found (- 1)]"
    by code_simp
  then have c: "\<exists>s. run (\<lambda>x. x) [Insert (42 :: 64 word) 7, Find 42, Erase 42, Find 42] (ShardedLabelLookup_ctor ())
          = Inr ([Returned, Found 7, Erased True, Found (- 1)], s)"
    by (cases "run (\<lambda>x. x) [Insert (42 :: 64 word) 7, Find 42, Erase 42, Find 42] (ShardedLabelLookup_ctor ())") auto
  from timer_does_not_change_lookup [OF a, where h = "\<lambda>x. x" and thread = 1 and tcs =
      "[(''insert'', 100, 105, Insert (42 :: 64 word) 7), (''find'', 110, 112, Find 42),
         (''erase'', 120, 121, Erase 42), (''find'', 130, 131, Find 42)]" and s = "ShardedLabelLookup_ctor ()"]
  show ?thesis using a c by simp
qed

end
